theory Spec2Isabelle
  imports Main "HOL-Library.AList" "HOL-Library.Multiset"
begin

section \<open>Python values used by \<^verbatim>\<open>experiments/datasets.py\<close>\<close>

text \<open>
  The exceptions the module can raise. The two \<^verbatim>\<open>assert\<close> statements of
  \<^verbatim>\<open>create_vocab\<close> raise the same class; the constructor argument is the message
  of the statement (empty when the statement has none).
\<close>

datatype error =
    AssertionError string
  | AttributeError string
  | KeyError
  | IndexError
  | TypeError
  | IOError
  | NotImplementedError

text \<open>
  A Python dictionary is the list of its items in iteration order, with distinct keys.
  The module reads dictionaries both by key (\<^verbatim>\<open>d[k]\<close>, \<^verbatim>\<open>d.get\<close>) and by
  position (\<^verbatim>\<open>d.keys()\<close>, \<^verbatim>\<open>d.values()\<close>), so the order is part of the value.
  Python 2 leaves the iteration order of a \<^verbatim>\<open>dict\<close> unspecified. A function that
  takes a dictionary takes it in whatever order it iterates. A dictionary that the model
  builds lists its items in insertion order, the order of \<^verbatim>\<open>collections.OrderedDict\<close>
  and of the dictionaries of PyPy; the properties below hold for every order unless
  they are stated at a concrete dictionary.
\<close>

type_synonym ('k, 'v) dict = "('k \<times> 'v) list"

definition keys :: "('k, 'v) dict \<Rightarrow> 'k list" where
  "keys d = map fst d"

definition values_of :: "('k, 'v) dict \<Rightarrow> 'v list" where
  "values_of d = map snd d"

definition setitem :: "'k \<Rightarrow> 'v \<Rightarrow> ('k, 'v) dict \<Rightarrow> ('k, 'v) dict" where
  \<comment> \<open>\<^verbatim>\<open>d[k] = v\<close>: an existing key keeps its place, a new key goes last.\<close>
  "setitem k v d = AList.update k v d"

definition len :: "'a list \<Rightarrow> int" where
  "len xs = int (length xs)"

definition getitem_list :: "'a list \<Rightarrow> int \<Rightarrow> error + 'a" where
  \<comment> \<open>\<^verbatim>\<open>xs[i]\<close> on a list; the indices \<open>-len(xs), \<dots>, -1\<close> count from the end.\<close>
  "getitem_list xs i =
     (if 0 \<le> i \<and> i < len xs then Inr (xs ! nat i)
      else if - len xs \<le> i \<and> i < 0 then Inr (xs ! nat (len xs + i))
      else Inl IndexError)"

definition slice_to :: "'a list \<Rightarrow> int \<Rightarrow> 'a list" where
  \<comment> \<open>\<^verbatim>\<open>xs[:k]\<close>: a negative bound drops that many elements from the end.\<close>
  "slice_to xs k = (if 0 \<le> k then take (nat k) xs else take (nat (len xs + k)) xs)"

definition repeat :: "'a \<Rightarrow> int \<Rightarrow> 'a list" where
  \<comment> \<open>\<^verbatim>\<open>[x] * k\<close>: empty when \<open>k\<close> is not positive.\<close>
  "repeat x k = replicate (nat k) x"

definition int64 :: "int \<Rightarrow> bool" where
  \<comment> \<open>The integers that a numpy \<^verbatim>\<open>int64\<close> array and a torch \<^verbatim>\<open>LongTensor\<close> hold.\<close>
  "int64 c \<longleftrightarrow> - (2 ^ 63) \<le> c \<and> c < 2 ^ 63"

definition then_do :: "error + 'a \<Rightarrow> ('a \<Rightarrow> error + 'b) \<Rightarrow> error + 'b" where
  "then_do m f = (case m of Inl e \<Rightarrow> Inl e | Inr x \<Rightarrow> f x)"

subsection \<open>\<^verbatim>\<open>str.split()\<close> and \<^verbatim>\<open>' '.join\<close>\<close>

definition is_space :: "char \<Rightarrow> bool" where
  \<comment> \<open>The whitespace of a Python 2 byte string: space, \<^verbatim>\<open>\t \n \v \f \r\<close>.\<close>
  "is_space c \<longleftrightarrow> c \<in> set [CHR '' '', CHR 0x09, CHR 0x0A, CHR 0x0B, CHR 0x0C, CHR 0x0D]"

fun split_from :: "string \<Rightarrow> string \<Rightarrow> string list" where
  \<comment> \<open>The second argument is the token being read, reversed.\<close>
  "split_from [] cur = (if cur = [] then [] else [rev cur])"
| "split_from (c # cs) cur =
     (if is_space c
      then (if cur = [] then split_from cs [] else rev cur # split_from cs [])
      else split_from cs (c # cur))"

definition str_split :: "string \<Rightarrow> string list" where
  "str_split s = split_from s []"

fun join :: "string list \<Rightarrow> string" where
  "join [] = []"
| "join [t] = t"
| "join (t # u # ts) = t @ CHR '' '' # join (u # ts)"

subsection \<open>Names imported from \<^verbatim>\<open>.utils\<close>\<close>

text \<open>
  \<^verbatim>\<open>PAD_TOKEN\<close>, \<^verbatim>\<open>UNK_TOKEN\<close>, \<^verbatim>\<open>SOS_TOKEN\<close> and \<^verbatim>\<open>EOS_TOKEN\<close> are
  string constants of \<^verbatim>\<open>utils.py\<close>, which is not part of the sources at hand. Every
  function that uses them takes them as a parameter.
\<close>

record tokens =
  PAD_TOKEN :: string
  UNK_TOKEN :: string
  SOS_TOKEN :: string
  EOS_TOKEN :: string

text \<open>
  Modelled from the spec: \<^verbatim>\<open>ZIPF_CLASS\<close>, the table of \<^verbatim>\<open>utils.py\<close> that names the
  rarity classes. The spec gives it as the enumeration HEAD, BODY, TAIL;
  \<open>head\<close> stands for \<^verbatim>\<open>ZIPF_CLASS['head']\<close> and so on.
\<close>

datatype zipf_class = head | body | tail

section \<open>\<^verbatim>\<open>CodeOrgDataset.process_programs\<close>\<close>

definition unk_index :: "tokens \<Rightarrow> (string, int) dict \<Rightarrow> error + int" where
  \<comment> \<open>\<^verbatim>\<open>self.w2i[UNK_TOKEN]\<close>\<close>
  "unk_index T w2i =
     (case map_of w2i (UNK_TOKEN T) of None \<Rightarrow> Inl KeyError | Some u \<Rightarrow> Inr u)"

fun lookup_all :: "tokens \<Rightarrow> (string, int) dict \<Rightarrow> string list \<Rightarrow> error + int list" where
  \<comment> \<open>\<^verbatim>\<open>[self.w2i.get(token, self.w2i[UNK_TOKEN]) for token in tokens]\<close>: the default
      is evaluated for every token, whether it is needed or not.\<close>
  "lookup_all T w2i [] = Inr []"
| "lookup_all T w2i (token # rest) =
     then_do (unk_index T w2i) (\<lambda>u.
     then_do (lookup_all T w2i rest) (\<lambda>is.
       Inr ((case map_of w2i token of None \<Rightarrow> u | Some i \<Rightarrow> i) # is)))"

definition wrap :: "tokens \<Rightarrow> int \<Rightarrow> string \<Rightarrow> string list" where
  \<comment> \<open>\<^verbatim>\<open>[SOS_TOKEN] + tokens[:self.max_seq_len] + [EOS_TOKEN]\<close>\<close>
  "wrap T max_seq_len program =
     SOS_TOKEN T # slice_to (str_split program) max_seq_len @ [EOS_TOKEN T]"

definition encode :: "tokens \<Rightarrow> (string, int) dict \<Rightarrow> int \<Rightarrow> string \<Rightarrow> error + (int list \<times> int)" where
  \<comment> \<open>One round of the loop of \<^verbatim>\<open>process_programs\<close>.\<close>
  "encode T w2i max_seq_len program =
     (let tokens = wrap T max_seq_len program;
          length = len tokens;
          tokens = tokens @ repeat (PAD_TOKEN T) (max_seq_len + 2 - length)
      in then_do (lookup_all T w2i tokens) (\<lambda>tokens. Inr (tokens, length)))"

fun process_programs ::
  "tokens \<Rightarrow> (string, int) dict \<Rightarrow> int \<Rightarrow> string list \<Rightarrow> error + (int list list \<times> int list)" where
  "process_programs T w2i max_seq_len [] = Inr ([], [])"
| "process_programs T w2i max_seq_len (program # data) =
     then_do (encode T w2i max_seq_len program) (\<lambda>(tokens, length).
     then_do (process_programs T w2i max_seq_len data) (\<lambda>(seqs, lengths).
       Inr (tokens # seqs, length # lengths)))"

section \<open>\<^verbatim>\<open>CodeOrgDataset.build_count_map\<close>\<close>

text \<open>
  The files under the data directory of one problem. \<^verbatim>\<open>split_pickle\<close> is the file
  \<^verbatim>\<open>{split}.pickle\<close> for each split name; in it the key \<^verbatim>\<open>programs\<close> is required
  and the key \<^verbatim>\<open>labels\<close> is optional. \<open>None\<close> is a file, or a key, that is absent.
\<close>

record 'lab raw_data =
  programs :: "string list option"
  labels_key :: "'lab list option"

record ('ast, 'lab) storage =
  split_pickle :: "string \<Rightarrow> 'lab raw_data option"
  sources_pickle :: "(int, 'ast) dict option"
  countMap_pickle :: "(int, int) dict option"

text \<open>
  \<^verbatim>\<open>removeColors\<close> and \<^verbatim>\<open>flatten_ast\<close> are functions of \<^verbatim>\<open>utils.py\<close>; the
  parameter \<open>flat\<close> is \<^verbatim>\<open>flatten_ast\<close> after \<^verbatim>\<open>removeColors\<close>, on any type of
  syntax trees.
\<close>

fun accumulate ::
  "('ast \<Rightarrow> string list) \<Rightarrow> (int, int) dict \<Rightarrow> (int, 'ast) dict \<Rightarrow> (string, int) dict
   \<Rightarrow> error + (string, int) dict" where
  \<comment> \<open>The loop over \<^verbatim>\<open>sources.keys()\<close>; \<^verbatim>\<open>count_map\<close> is a
      \<^verbatim>\<open>defaultdict\<close> with default 0.\<close>
  "accumulate flat counts [] count_map = Inr count_map"
| "accumulate flat counts ((i, ast) # domain) count_map =
     (let program = join (flat ast);
          old = (case map_of count_map program of None \<Rightarrow> 0 | Some c \<Rightarrow> c)
      in case map_of counts i of
           None \<Rightarrow> Inl KeyError
         | Some c \<Rightarrow> accumulate flat counts domain (setitem program (old + c) count_map))"

definition build_count_map ::
  "('ast \<Rightarrow> string list) \<Rightarrow> ('ast, 'lab) storage \<Rightarrow> error + (string, int) dict" where
  "build_count_map flat st =
     (case sources_pickle st of
        None \<Rightarrow> Inl IOError
      | Some sources \<Rightarrow>
          (case countMap_pickle st of
             None \<Rightarrow> Inl IOError
           | Some counts \<Rightarrow> accumulate flat counts sources []))"

section \<open>\<^verbatim>\<open>build_rank_map_from_count_map\<close> and \<^verbatim>\<open>build_zipf_map\<close>\<close>

text \<open>
  Both functions turn \<^verbatim>\<open>d.keys()\<close> and \<^verbatim>\<open>d.values()\<close> into numpy arrays and work
  on positions. An array is a list here, and a program is kept as it is (numpy drops the
  NUL bytes at the end of a byte string; the model takes programs that have none).
\<close>

definition dict_of :: "('k \<times> 'v) list \<Rightarrow> ('k, 'v) dict" where
  \<comment> \<open>\<^verbatim>\<open>dict(pairs)\<close>: the pairs are stored one after the other.\<close>
  "dict_of kvs = foldl (\<lambda>d (k, v). setitem k v d) [] kvs"

text \<open>
  \<^verbatim>\<open>np.argsort(counts)\<close>, with numpy's default kind. numpy is not part of the
  sources, and the model follows it as far as its behaviour is fixed:
  \<^item> on an \<^verbatim>\<open>int64\<close> array of at most 16 elements the default kind is an insertion
    sort: the indices come in ascending order of the values, equal values in listed order;
  \<^item> on a longer \<^verbatim>\<open>int64\<close> array the indices come in ascending order of the values,
    and the order of equal values is the one that numpy's quicksort leaves them in;
  \<^item> a list with an integer outside \<^verbatim>\<open>int64\<close> becomes an array of another type
    (\<^verbatim>\<open>uint64\<close>, \<^verbatim>\<open>float64\<close> or \<^verbatim>\<open>object\<close>), and the order is the one numpy
    gives that array.

  What numpy decides is the parameter \<open>pos\<close>: \<open>pos a i\<close> is the place that numpy
  gives the index \<open>i\<close> of the array \<open>a\<close>, wherever the two first cases do not fix
  it. Every result is a permutation of the indices, whatever \<open>pos\<close> is.
\<close>

definition argsort :: "(int list \<Rightarrow> nat \<Rightarrow> nat) \<Rightarrow> int list \<Rightarrow> nat list" where
  "argsort pos a =
     (if \<not> list_all int64 a then sort_key (pos a) [0..<length a]
      else if length a \<le> 16 then sort_key (\<lambda>i. a ! i) [0..<length a]
      else sort_key (\<lambda>i. a ! i) (sort_key (pos a) [0..<length a]))"

definition build_rank_map_from_count_map ::
  "(int list \<Rightarrow> nat \<Rightarrow> nat) \<Rightarrow> (string, int) dict \<Rightarrow> (string, int) dict" where
  "build_rank_map_from_count_map pos count_map =
     (let programs = keys count_map;
          counts = values_of count_map;
          ranks = rev (argsort pos counts);
          programs = map (\<lambda>r. programs ! r) ranks
      in dict_of (zip programs (map int [0..<length programs])))"

definition mask_assign :: "'a list \<Rightarrow> bool list \<Rightarrow> 'a \<Rightarrow> error + 'a list" where
  \<comment> \<open>\<^verbatim>\<open>xs[mask] = v\<close> on a numpy array: the mask has the length of the array.\<close>
  "mask_assign xs flags v =
     (if length flags \<noteq> length xs then Inl IndexError
      else Inr (map (\<lambda>(x, b). if b then v else x) (zip xs flags)))"

definition build_zipf_map ::
  "(string, int) dict \<Rightarrow> (string, int) dict \<Rightarrow> error + (string, zipf_class) dict" where
  "build_zipf_map count_map rank_map =
     (let programs = keys count_map;
          counts = values_of count_map;
          ranks = values_of rank_map;
          zipf_classes = replicate (length programs) body
      in then_do (mask_assign zipf_classes (map (\<lambda>c. c < 3) counts) tail) (\<lambda>zipf_classes.
         then_do (mask_assign zipf_classes (map (\<lambda>r. r \<le> 20) ranks) head) (\<lambda>zipf_classes.
           Inr (dict_of (zip programs zipf_classes)))))"

section \<open>The dataset object\<close>

type_synonym vocabulary = "(string, int) dict \<times> (int, string) dict"
  \<comment> \<open>\<^verbatim>\<open>dict(w2i=w2i, i2w=i2w)\<close>\<close>

text \<open>
  The attributes of a \<^verbatim>\<open>CodeOrgDataset\<close>. An optional field is an attribute that can
  be \<^verbatim>\<open>None\<close> (\<open>vocab\<close>, \<open>raw_labels\<close>) or that can be missing from the object
  (\<open>data\<close>, \<open>labels\<close>): \<^verbatim>\<open>create_vocab\<close> reads \<^verbatim>\<open>self.data\<close>, which neither
  \<^verbatim>\<open>__init__\<close> nor the base class assigns, and \<^verbatim>\<open>self.labels\<close> is assigned only
  when there are raw labels.
\<close>

record 'lab dataset =
  problem_id :: int
  split :: string
  vocab :: "vocabulary option"
  max_seq_len :: int
  min_occ :: int
  data :: "string list option"
  raw_programs :: "string list"
  raw_labels :: "'lab list option"
  zipf_map :: "(string, zipf_class) dict"
  w2i :: "(string, int) dict"
  i2w :: "(int, string) dict"
  vocab_size :: int
  sequences :: "int list list"
  lengths :: "int list"
  labels :: "'lab list option"

subsection \<open>\<^verbatim>\<open>create_vocab\<close>\<close>

text \<open>
  Modelled from the spec: \<^verbatim>\<open>OrderedCounter\<close>, a class of \<^verbatim>\<open>utils.py\<close>. The spec
  gives it as a counter that keeps its keys in first-seen order.
\<close>

definition counter_update :: "(string, int) dict \<Rightarrow> string list \<Rightarrow> (string, int) dict" where
  "counter_update w2c tokens =
     foldl (\<lambda>c t. setitem t ((case map_of c t of None \<Rightarrow> 0 | Some n \<Rightarrow> n) + 1) c) w2c tokens"

definition add_word :: "string \<Rightarrow> vocabulary \<Rightarrow> vocabulary" where
  \<comment> \<open>\<^verbatim>\<open>i2w[len(w2i)] = w; w2i[w] = len(w2i)\<close>\<close>
  "add_word w v =
     (let i2w = setitem (len (fst v)) w (snd v);
          w2i = setitem w (len (fst v)) (fst v)
      in (w2i, i2w))"

definition create_vocab ::
  "tokens \<Rightarrow> 'lab dataset \<Rightarrow> string list \<Rightarrow> error + ('lab dataset \<times> vocabulary option)" where
  \<comment> \<open>The result is the object after the call and the value of the call. The function
      has no \<^verbatim>\<open>return\<close> statement, so the call evaluates to \<^verbatim>\<open>None\<close>. The
      argument is not used: the loop reads \<^verbatim>\<open>self.data\<close>.\<close>
  "create_vocab T self data_arg =
     (if split self \<noteq> ''train''
      then Inl (AssertionError ''Vocabulary can only be created for training file.'')
      else
        let special_tokens = [PAD_TOKEN T, UNK_TOKEN T, SOS_TOKEN T, EOS_TOKEN T];
            v = foldl (\<lambda>v st. add_word st v) ([], []) special_tokens
        in case data self of
             None \<Rightarrow> Inl (AttributeError ''data'')
           | Some self_data \<Rightarrow>
               (let w2c = foldl (\<lambda>w2c program. counter_update w2c (str_split program)) [] self_data;
                    v = foldl (\<lambda>v (w, c). if c > min_occ self then add_word w v else v) v w2c
                in if len (fst v) \<noteq> len (snd v) then Inl (AssertionError [])
                   else Inr (self\<lparr>vocab := Some v\<rparr>, None)))"

subsection \<open>\<^verbatim>\<open>__init__\<close>, \<^verbatim>\<open>__len__\<close> and \<^verbatim>\<open>__getitem__\<close>\<close>

definition process_labels :: "'lab list \<Rightarrow> error + 'lab list" where
  "process_labels annotations = Inl NotImplementedError"

definition init ::
  "tokens \<Rightarrow> ('ast \<Rightarrow> string list) \<Rightarrow> (int list \<Rightarrow> nat \<Rightarrow> nat) \<Rightarrow> ('ast, 'lab) storage
   \<Rightarrow> int \<Rightarrow> string \<Rightarrow> vocabulary option \<Rightarrow> int \<Rightarrow> int \<Rightarrow> error + 'lab dataset" where
  \<comment> \<open>\<^verbatim>\<open>CodeOrgDataset(dataset, problem_id, split, vocab, max_seq_len, min_occ)\<close>; the
      storage is the data directory of \<^verbatim>\<open>dataset\<close> and \<^verbatim>\<open>problem_id\<close>.\<close>
  "init T flat pos st problem_id_arg split_arg vocab_arg max_seq_len_arg min_occ_arg =
     (case split_pickle st split_arg of
        None \<Rightarrow> Inl IOError
      | Some raw_data \<Rightarrow>
     (case programs raw_data of
        None \<Rightarrow> Inl (AssertionError [])
      | Some raw_programs_val \<Rightarrow>
     then_do (build_count_map flat st) (\<lambda>count_map.
     then_do (build_zipf_map count_map (build_rank_map_from_count_map pos count_map)) (\<lambda>zipf.
       let self = \<lparr>problem_id = problem_id_arg, split = split_arg, vocab = vocab_arg,
                    max_seq_len = max_seq_len_arg, min_occ = min_occ_arg, data = None,
                    raw_programs = raw_programs_val, raw_labels = labels_key raw_data,
                    zipf_map = zipf, w2i = [], i2w = [], vocab_size = 0,
                    sequences = [], lengths = [], labels = None\<rparr>
       in
     then_do (if vocab self = None
              then then_do (create_vocab T self (raw_programs self))
                     (\<lambda>(self, result). Inr (self\<lparr>vocab := result\<rparr>))
              else Inr self) (\<lambda>self.
     (case vocab self of
        None \<Rightarrow> Inl TypeError
      | Some v \<Rightarrow>
          (let self = self\<lparr>w2i := fst v, i2w := snd v\<rparr>;
               self = self\<lparr>vocab_size := len (w2i self)\<rparr>
           in
     then_do (process_programs T (w2i self) (max_seq_len self) (raw_programs self))
       (\<lambda>(seqs, lens).
          let self = self\<lparr>sequences := seqs, lengths := lens\<rparr>
          in case raw_labels self of
               None \<Rightarrow> Inr self
             | Some annotations \<Rightarrow>
                 then_do (process_labels annotations)
                   (\<lambda>ls. Inr (self\<lparr>labels := Some ls\<rparr>))))))))))"

definition size_of :: "'lab dataset \<Rightarrow> int" where
  \<comment> \<open>\<^verbatim>\<open>__len__\<close>\<close>
  "size_of self = len (sequences self)"

text \<open>
  \<^verbatim>\<open>torch.from_numpy(np.array(seq)).long()\<close>: a sequence of \<^verbatim>\<open>int64\<close> indices
  becomes the tensor of the same indices. A sequence with an index outside \<^verbatim>\<open>int64\<close>
  becomes a numpy array of another type, which torch refuses with a \<^verbatim>\<open>TypeError\<close>
  or converts to other values; what the two libraries do there is the parameter
  \<open>conv\<close>.
\<close>

definition long_tensor :: "(int list \<Rightarrow> error + int list) \<Rightarrow> int list \<Rightarrow> error + int list" where
  "long_tensor conv seq = (if list_all int64 seq then Inr seq else conv seq)"

definition getitem ::
  "(int list \<Rightarrow> error + int list) \<Rightarrow> 'lab dataset \<Rightarrow> int
   \<Rightarrow> error + (int list \<times> int \<times> 'lab option \<times> zipf_class)" where
  \<comment> \<open>\<^verbatim>\<open>__getitem__\<close>\<close>
  "getitem conv self index =
     then_do (getitem_list (sequences self) index) (\<lambda>seq.
     then_do (getitem_list (lengths self) index) (\<lambda>length.
     then_do (long_tensor conv seq) (\<lambda>seq.
     then_do (getitem_list (raw_programs self) index) (\<lambda>program.
     then_do (case map_of (zipf_map self) program of
                None \<Rightarrow> Inl KeyError | Some z \<Rightarrow> Inr z) (\<lambda>zipf.
       case raw_labels self of
         None \<Rightarrow> Inr (seq, length, None, zipf)
       | Some _ \<Rightarrow>
           (case labels self of
              None \<Rightarrow> Inl (AttributeError ''labels'')
            | Some ls \<Rightarrow>
                then_do (getitem_list ls index) (\<lambda>label.
                  Inr (seq, length, Some label, zipf))))))))"

section \<open>Notions used to state the properties\<close>

definition ids_of :: "('ast \<Rightarrow> string list) \<Rightarrow> (int, 'ast) dict \<Rightarrow> string \<Rightarrow> int set" where
  \<comment> \<open>The ids of \<open>sources\<close> whose syntax tree flattens to the program \<open>p\<close>.\<close>
  "ids_of flat sources p = fst ` set (filter (\<lambda>(i, ast). join (flat ast) = p) sources)"

definition get0 :: "('k, int) dict \<Rightarrow> 'k \<Rightarrow> int" where
  \<comment> \<open>\<^verbatim>\<open>d.get(k, 0)\<close>\<close>
  "get0 d k = (case map_of d k of None \<Rightarrow> 0 | Some c \<Rightarrow> c)"

definition before :: "(nat \<Rightarrow> int) \<Rightarrow> nat \<Rightarrow> nat \<Rightarrow> bool" where
  \<comment> \<open>The order of a stable ascending sort of indices by the key \<open>f\<close>.\<close>
  "before f i j \<longleftrightarrow> f i < f j \<or> (f i = f j \<and> i < j)"

definition ranked :: "string list \<Rightarrow> nat list \<Rightarrow> (string, int) dict" where
  \<comment> \<open>The rank map of the programs \<open>ps\<close> when the argsort of their counts is \<open>order\<close>.\<close>
  "ranked ps order = zip (map (\<lambda>r. ps ! r) (rev order)) (map int [0..<length order])"

definition zipf_at :: "int \<Rightarrow> int \<Rightarrow> zipf_class" where
  \<comment> \<open>The class of a program with count \<open>c\<close> when the rank paired with it is \<open>r\<close>.\<close>
  "zipf_at c r = (if r \<le> 20 then head else if c < 3 then tail else body)"

subsection \<open>Concrete inputs\<close>

definition listed :: "int list \<Rightarrow> nat \<Rightarrow> nat" where
  \<comment> \<open>A value for the parameter of \<open>argsort\<close>: every index at its own place.\<close>
  "listed a i = i"

definition refuse :: "int list \<Rightarrow> error + int list" where
  \<comment> \<open>A value for the parameter of \<open>long_tensor\<close>: torch refuses the array.\<close>
  "refuse seq = Inl TypeError"

definition example_tokens :: tokens where
  "example_tokens =
     \<lparr>PAD_TOKEN = ''<pad>'', UNK_TOKEN = ''<unk>'', SOS_TOKEN = ''<sos>'', EOS_TOKEN = ''<eos>''\<rparr>"

definition example_vocab :: vocabulary where
  "example_vocab =
     ([(''<pad>'', 0), (''<unk>'', 1), (''<sos>'', 2), (''<eos>'', 3), (''a'', 4), (''b'', 5)],
      [(0, ''<pad>''), (1, ''<unk>''), (2, ''<sos>''), (3, ''<eos>''), (4, ''a''), (5, ''b'')])"

definition example_sources :: "(int, string list) dict" where
  "example_sources = [(1, [''a'', ''b'']), (2, [''b'', ''c'']), (3, [''a'', ''b''])]"

definition example_counts :: "(int, int) dict" where
  "example_counts = [(1, 5), (2, 7), (3, 1)]"

definition example_storage :: "(string list, unit) storage" where
  "example_storage = \<lparr>
     split_pickle = (\<lambda>s. if s = ''train''
        then Some \<lparr>programs = Some [''a b'', ''b c'', ''x''], labels_key = None\<rparr> else None),
     sources_pickle = Some example_sources,
     countMap_pickle = Some example_counts\<rparr>"

definition example_dataset :: "unit dataset" where
  \<comment> \<open>The object that \<^verbatim>\<open>__init__\<close> builds from \<open>example_storage\<close>, the split
      \<^verbatim>\<open>train\<close>, the vocabulary \<open>example_vocab\<close> and \<^verbatim>\<open>max_seq_len = 3\<close>.\<close>
  "example_dataset =
     \<lparr>problem_id = 1, split = ''train'', vocab = Some example_vocab,
      max_seq_len = 3, min_occ = 3, data = None,
      raw_programs = [''a b'', ''b c'', ''x''], raw_labels = None,
      zipf_map = [(''a b'', head), (''b c'', head)],
      w2i = fst example_vocab, i2w = snd example_vocab, vocab_size = 6,
      sequences = [ [2, 4, 5, 3, 0], [2, 5, 1, 3, 0], [2, 1, 3, 0, 0] ],
      lengths = [4, 4, 3], labels = None\<rparr>"

definition wide_vocab :: vocabulary where
  \<comment> \<open>A vocabulary with an index that is not an \<^verbatim>\<open>int64\<close> value.\<close>
  "wide_vocab =
     ([(''<pad>'', 0), (''<unk>'', 1), (''<sos>'', 2), (''<eos>'', 3), (''a'', 2 ^ 70), (''b'', 5)],
      [(0, ''<pad>''), (1, ''<unk>''), (2, ''<sos>''), (3, ''<eos>''), (2 ^ 70, ''a''), (5, ''b'')])"

definition wide_dataset :: "unit dataset" where
  \<comment> \<open>The object that \<^verbatim>\<open>__init__\<close> builds with the vocabulary \<open>wide_vocab\<close>.\<close>
  "wide_dataset =
     example_dataset
       \<lparr>vocab := Some wide_vocab, w2i := fst wide_vocab, i2w := snd wide_vocab,
        sequences := [ [2, 2 ^ 70, 5, 3, 0], [2, 5, 1, 3, 0], [2, 1, 3, 0, 0] ]\<rparr>"

definition programs4 :: "(string, int) dict" where
  "programs4 = [(''A'', 1), (''B'', 2), (''C'', 3), (''D'', 100)]"

definition programs22 :: "(string, int) dict" where
  \<comment> \<open>22 programs; the first listed is the rarest, the last listed the most common.\<close>
  "programs22 =
     [(''p00'', 1), (''p01'', 11), (''p02'', 12), (''p03'', 13), (''p04'', 14), (''p05'', 15),
      (''p06'', 16), (''p07'', 17), (''p08'', 18), (''p09'', 19), (''p10'', 20), (''p11'', 21),
      (''p12'', 22), (''p13'', 23), (''p14'', 24), (''p15'', 25), (''p16'', 26), (''p17'', 27),
      (''p18'', 28), (''p19'', 29), (''p20'', 30), (''p21'', 31)]"

section \<open>Encoding: \<^verbatim>\<open>process_programs\<close>\<close>


lemma lookup_all_no_unk:
  "map_of W (UNK_TOKEN T) = None \<Longrightarrow> ts \<noteq> [] \<Longrightarrow> lookup_all T W ts = Inl KeyError"
  by (cases ts) (simp_all add: then_do_def unk_index_def)









section \<open>Counting: \<^verbatim>\<open>build_count_map\<close>\<close>

lemma map_of_setitem: "map_of (setitem k v d) = (map_of d)(k \<mapsto> v)"
  by (simp add: setitem_def update_conv')

lemma distinct_setitem: "distinct (keys d) \<Longrightarrow> distinct (keys (setitem k v d))"
  by (simp add: setitem_def keys_def distinct_update)

lemma get0_setitem: "get0 (setitem k v d) p = (if p = k then v else get0 d p)"
  by (simp add: get0_def map_of_setitem)

lemma accumulate_step:
  "accumulate flat counts ((i, a) # src) cm =
     (case map_of counts i of None \<Rightarrow> Inl KeyError
      | Some c \<Rightarrow> accumulate flat counts src (setitem (join (flat a)) (get0 cm (join (flat a)) + c) cm))"
  by (simp add: Let_def get0_def split: option.split)

lemma accumulate_Inr:
  "\<forall>i \<in> set (keys src). map_of counts i \<noteq> None \<Longrightarrow> \<exists>r. accumulate flat counts src cm = Inr r"
proof (induction src arbitrary: cm)
  case Nil
  show ?case by simp
next
  case (Cons x src)
  obtain i a where x: "x = (i, a)" by (cases x)
  from Cons.prems x obtain c where c: "map_of counts i = Some c"
    by (auto simp: keys_def)
  have "\<forall>i \<in> set (keys src). map_of counts i \<noteq> None"
    using Cons.prems by (simp add: keys_def)
  from Cons.IH [OF this] show ?case
    unfolding x accumulate_step c by simp
qed

lemma accumulate_distinct:
  "accumulate flat counts src cm = Inr r \<Longrightarrow> distinct (keys cm) \<Longrightarrow> distinct (keys r)"
proof (induction src arbitrary: cm)
  case Nil
  then show ?case by simp
next
  case (Cons x src)
  obtain i a where x: "x = (i, a)" by (cases x)
  show ?case
  proof (cases "map_of counts i")
    case None
    then show ?thesis using Cons.prems(1) unfolding x accumulate_step by simp
  next
    case (Some c)
    then show ?thesis
      using Cons.prems Cons.IH distinct_setitem unfolding x accumulate_step
      by (metis option.simps(5))
  qed
qed

lemma accumulate_dom:
  "accumulate flat counts src cm = Inr r \<Longrightarrow>
   dom (map_of r) = dom (map_of cm) \<union> (\<lambda>(i, a). join (flat a)) ` set src"
proof (induction src arbitrary: cm)
  case Nil
  then show ?case by simp
next
  case (Cons x src)
  obtain i a where x: "x = (i, a)" by (cases x)
  show ?case
  proof (cases "map_of counts i")
    case None
    then show ?thesis using Cons.prems(1) unfolding x accumulate_step by simp
  next
    case (Some c)
    let ?cm = "setitem (join (flat a)) (get0 cm (join (flat a)) + c) cm"
    have "accumulate flat counts src ?cm = Inr r"
      using Cons.prems Some unfolding x accumulate_step by simp
    then have "dom (map_of r) = dom (map_of ?cm) \<union> (\<lambda>(i, a). join (flat a)) ` set src"
      by (rule Cons.IH)
    then show ?thesis by (simp add: x map_of_setitem)
  qed
qed

lemma accumulate_get0:
  "accumulate flat counts src cm = Inr r \<Longrightarrow>
   get0 r p = get0 cm p
     + sum_list (map (\<lambda>(i, a). get0 counts i) (filter (\<lambda>(i, a). join (flat a) = p) src))"
proof (induction src arbitrary: cm)
  case Nil
  then show ?case by simp
next
  case (Cons x src)
  obtain i a where x: "x = (i, a)" by (cases x)
  show ?case
  proof (cases "map_of counts i")
    case None
    then show ?thesis using Cons.prems(1) unfolding x accumulate_step by simp
  next
    case (Some c)
    let ?cm = "setitem (join (flat a)) (get0 cm (join (flat a)) + c) cm"
    have "accumulate flat counts src ?cm = Inr r"
      using Cons.prems Some unfolding x accumulate_step by simp
    then have "get0 r p = get0 ?cm p
     + sum_list (map (\<lambda>(i, a). get0 counts i) (filter (\<lambda>(i, a). join (flat a) = p) src))"
      by (rule Cons.IH)
    moreover have "get0 counts i = c" using Some by (simp add: get0_def)
    ultimately show ?thesis by (simp add: x get0_setitem)
  qed
qed

lemma accumulate_missing:
  "\<exists>i \<in> set (keys src). map_of counts i = None \<Longrightarrow> accumulate flat counts src cm = Inl KeyError"
proof (induction src arbitrary: cm)
  case Nil
  then show ?case by (simp add: keys_def)
next
  case (Cons x src)
  obtain i a where x: "x = (i, a)" by (cases x)
  show ?case
  proof (cases "map_of counts i")
    case None
    then show ?thesis unfolding x accumulate_step by simp
  next
    case (Some c)
    then have "\<exists>i \<in> set (keys src). map_of counts i = None"
      using Cons.prems x by (auto simp: keys_def)
    then show ?thesis using Cons.IH Some unfolding x accumulate_step by simp
  qed
qed

lemma sum_ids:
  assumes "distinct (keys src)"
  shows "sum_list (map (\<lambda>(i, a). g i) (filter (\<lambda>(i, a). join (flat a) = p) src))
       = sum g (ids_of flat src p)"
proof -
  let ?xs = "filter (\<lambda>(i, a). join (flat a) = p) src"
  have "distinct (map fst ?xs)"
    using assms by (simp add: keys_def distinct_map_filter)
  then have 2: "sum_list (map g (map fst ?xs)) = sum g (set (map fst ?xs))"
    by (rule sum_list_distinct_conv_sum_set)
  have "(\<lambda>(i, a). g i) = g \<circ> fst" by auto
  then have 1: "map (\<lambda>(i, a). g i) ?xs = map g (map fst ?xs)"
    by simp
  have 3: "set (map fst ?xs) = ids_of flat src p"
    unfolding ids_of_def by (rule set_map)
  show ?thesis unfolding 1 2 3 ..
qed

lemma ids_of_empty:
  "ids_of flat src p = {} \<longleftrightarrow> p \<notin> (\<lambda>(i, a). join (flat a)) ` set src"
  by (auto simp: ids_of_def image_iff)

lemma ids_of_keys: "ids_of flat src p \<subseteq> set (keys src)"
  by (auto simp: ids_of_def keys_def)

lemma accumulate_sums:
  assumes d: "distinct (keys src)"
    and k: "\<forall>i \<in> set (keys src). map_of counts i \<noteq> None"
    and r: "accumulate flat counts src [] = Inr r"
  shows "map_of r p =
          (if ids_of flat src p = {} then None
           else Some (\<Sum>i \<in> ids_of flat src p. the (map_of counts i)))"
proof (cases "ids_of flat src p = {}")
  case True
  then have "p \<notin> dom (map_of r)"
    using accumulate_dom [OF r] by (simp add: ids_of_empty)
  then show ?thesis using True by (simp add: dom_def)
next
  case False
  then have "p \<in> dom (map_of r)"
    using accumulate_dom [OF r] by (simp add: ids_of_empty)
  then obtain v where v: "map_of r p = Some v" by (auto simp: dom_def)
  have "v = get0 r p" using v by (simp add: get0_def)
  also have "\<dots> = sum_list (map (\<lambda>(i, a). get0 counts i) (filter (\<lambda>(i, a). join (flat a) = p) src))"
    using accumulate_get0 [OF r, of p] by (simp add: get0_def)
  also have "\<dots> = (\<Sum>i \<in> ids_of flat src p. get0 counts i)"
    using d by (rule sum_ids)
  also have "\<dots> = (\<Sum>i \<in> ids_of flat src p. the (map_of counts i))"
  proof (rule sum.cong)
    fix i assume "i \<in> ids_of flat src p"
    then have "map_of counts i \<noteq> None" using k ids_of_keys by blast
    then show "get0 counts i = the (map_of counts i)" by (auto simp: get0_def)
  qed simp
  finally show ?thesis using v False by simp
qed

text \<open>
  Claim C7. When the ids of \<open>sources\<close> all have a count, the count map gives each
  program the sum of \<open>counts[i]\<close> over the ids \<open>i\<close> whose syntax tree flattens to
  that program, and no entry to any other string; and whatever the order in which
  \<open>sources\<close> is iterated, the count map holds the same counts.
\<close>

theorem build_count_map_sums:
  assumes "sources_pickle st = Some sources"
    and "countMap_pickle st = Some counts"
    and "distinct (keys sources)"
    and "\<forall>i \<in> set (keys sources). map_of counts i \<noteq> None"
  shows "\<exists>count_map. build_count_map flat st = Inr count_map
     \<and> distinct (keys count_map)
     \<and> (\<forall>p. map_of count_map p =
          (if ids_of flat sources p = {} then None
           else Some (\<Sum>i \<in> ids_of flat sources p. the (map_of counts i))))
     \<and> (\<forall>sources'. mset sources' = mset sources \<longrightarrow>
          (\<exists>count_map'. build_count_map flat (st\<lparr>sources_pickle := Some sources'\<rparr>) = Inr count_map'
             \<and> map_of count_map' = map_of count_map))"
proof -
  from accumulate_Inr [OF assms(4)] obtain r where
    r: "accumulate flat counts sources [] = Inr r" by blast
  have b: "build_count_map flat st = Inr r"
    using r assms(1,2) by (simp add: build_count_map_def)
  have dr: "distinct (keys r)"
    using accumulate_distinct [OF r] by (simp add: keys_def)
  have m: "\<forall>p. map_of r p =
          (if ids_of flat sources p = {} then None
           else Some (\<Sum>i \<in> ids_of flat sources p. the (map_of counts i)))"
    using accumulate_sums [OF assms(3,4) r] by blast
  have o: "\<forall>sources'. mset sources' = mset sources \<longrightarrow>
          (\<exists>count_map'. build_count_map flat (st\<lparr>sources_pickle := Some sources'\<rparr>) = Inr count_map'
             \<and> map_of count_map' = map_of r)"
  proof (intro allI impI)
    fix sources' :: "(int, 'a) dict"
    assume p: "mset sources' = mset sources"
    have s: "set sources' = set sources" using p by (rule mset_eq_setD)
    have "mset (map fst sources') = mset (map fst sources)" using p by simp
    then have d': "distinct (keys sources')"
      using assms(3) mset_eq_imp_distinct_iff unfolding keys_def by blast
    have k': "\<forall>i \<in> set (keys sources'). map_of counts i \<noteq> None"
      using assms(4) s by (simp add: keys_def)
    from accumulate_Inr [OF k'] obtain r' where
      r': "accumulate flat counts sources' [] = Inr r'" by blast
    have i: "ids_of flat sources' q = ids_of flat sources q" for q
      using s by (simp add: ids_of_def)
    have "map_of r' q = map_of r q" for q
      using accumulate_sums [OF d' k' r', of q] m i [of q] by simp
    then have "map_of r' = map_of r" by (rule ext)
    moreover have "build_count_map flat (st\<lparr>sources_pickle := Some sources'\<rparr>) = Inr r'"
      using r' assms(2) by (simp add: build_count_map_def)
    ultimately show "\<exists>count_map'. build_count_map flat (st\<lparr>sources_pickle := Some sources'\<rparr>) = Inr count_map'
             \<and> map_of count_map' = map_of r"
      by blast
  qed
  from b dr m o show ?thesis by blast
qed

theorem build_count_map_sums_witness:
  "sources_pickle example_storage = Some example_sources
   \<and> countMap_pickle example_storage = Some example_counts
   \<and> distinct (keys example_sources)
   \<and> set (keys example_sources) \<subseteq> dom (map_of example_counts)
   \<and> (\<exists>count_map. build_count_map (\<lambda>x. x) example_storage = Inr count_map
     \<and> distinct (keys count_map)
     \<and> (\<forall>p. map_of count_map p =
          (if ids_of (\<lambda>x. x) example_sources p = {} then None
           else Some (\<Sum>i \<in> ids_of (\<lambda>x. x) example_sources p. the (map_of example_counts i))))
     \<and> (\<forall>sources'. mset sources' = mset example_sources \<longrightarrow>
          (\<exists>count_map'. build_count_map (\<lambda>x. x) (example_storage\<lparr>sources_pickle := Some sources'\<rparr>)
               = Inr count_map'
             \<and> map_of count_map' = map_of count_map)))"
proof -
  have h1: "sources_pickle example_storage = Some example_sources"
    by (simp add: example_storage_def)
  have h2: "countMap_pickle example_storage = Some example_counts"
    by (simp add: example_storage_def)
  have h3: "distinct (keys example_sources)" by code_simp
  have h4: "\<forall>i \<in> set (keys example_sources). map_of example_counts i \<noteq> None" by code_simp
  then have h4': "set (keys example_sources) \<subseteq> dom (map_of example_counts)"
    by (auto simp: dom_def)
  show ?thesis
    by (rule conjI [OF h1 conjI [OF h2 conjI [OF h3 conjI [OF h4'
          build_count_map_sums [OF h1 h2 h3 h4]]]]])
qed

text \<open>
  Claim C10. With both files loaded, the count map is built exactly when every id of
  \<open>sources\<close> has an entry in \<open>counts\<close>; when one id has none, the call raises a
  \<^verbatim>\<open>KeyError\<close>.
\<close>

theorem build_count_map_missing_count:
  assumes "sources_pickle st = Some sources"
    and "countMap_pickle st = Some counts"
  shows "if \<exists>i \<in> set (keys sources). map_of counts i = None
         then build_count_map flat st = Inl KeyError
         else \<exists>count_map. build_count_map flat st = Inr count_map"
proof (cases "\<exists>i \<in> set (keys sources). map_of counts i = None")
  case True
  have "build_count_map flat st = Inl KeyError"
    using accumulate_missing [OF True, of flat "[]"] assms by (simp add: build_count_map_def)
  then show ?thesis by (subst if_P [OF True])
next
  case False
  then have "\<forall>i \<in> set (keys sources). map_of counts i \<noteq> None" by simp
  from accumulate_Inr [OF this, of flat "[]"]
  have "\<exists>count_map. build_count_map flat st = Inr count_map"
    using assms by (simp add: build_count_map_def)
  then show ?thesis by (subst if_not_P [OF False])
qed

theorem build_count_map_missing_count_witness:
  "sources_pickle (example_storage\<lparr>countMap_pickle := Some [(1, 5), (2, 7)]\<rparr>) = Some example_sources
   \<and> countMap_pickle (example_storage\<lparr>countMap_pickle := Some [(1, 5), (2, 7)]\<rparr>) = Some [(1, 5), (2, 7)]
   \<and> (\<exists>i \<in> set (keys example_sources). map_of [(1, 5), (2, 7 :: int)] i = None)
   \<and> build_count_map (\<lambda>x. x) (example_storage\<lparr>countMap_pickle := Some [(1, 5), (2, 7)]\<rparr>)
       = Inl KeyError"
proof -
  let ?st = "example_storage\<lparr>countMap_pickle := Some [(1, 5), (2, 7)]\<rparr>"
  have h1: "sources_pickle ?st = Some example_sources"
    by (simp add: example_storage_def)
  have h2: "countMap_pickle ?st = Some [(1, 5), (2, 7)]"
    by simp
  have h3: "\<exists>i \<in> set (keys example_sources). map_of [(1, 5), (2, 7 :: int)] i = None"
    by code_simp
  have "build_count_map (\<lambda>x. x) ?st = Inl KeyError"
    using build_count_map_missing_count [OF h1 h2, of "\<lambda>x. x"] h3 by (simp only: if_True)
  with h1 h2 h3 show ?thesis by blast
qed

section \<open>Ranking: \<^verbatim>\<open>build_rank_map_from_count_map\<close>\<close>

lemma setitem_new: "k \<notin> set (keys d) \<Longrightarrow> setitem k v d = d @ [(k, v)]"
  unfolding setitem_def keys_def by (induction d) auto

lemma foldl_setitem_distinct:
  "distinct (keys (d @ kvs)) \<Longrightarrow> foldl (\<lambda>d (k, v). setitem k v d) d kvs = d @ kvs"
proof (induction kvs arbitrary: d)
  case Nil
  show ?case by simp
next
  case (Cons x kvs)
  obtain k v where x: "x = (k, v)" by (cases x)
  have "k \<notin> set (keys d)" using Cons.prems x by (auto simp: keys_def)
  then have s: "setitem k v d = d @ [(k, v)]" by (rule setitem_new)
  have "distinct (keys ((d @ [(k, v)]) @ kvs))" using Cons.prems x by simp
  from Cons.IH [OF this] show ?case by (simp add: x s)
qed

lemma dict_of_distinct: "distinct (keys kvs) \<Longrightarrow> dict_of kvs = kvs"
  unfolding dict_of_def using foldl_setitem_distinct [of "[]" kvs] by simp

lemma insort_before:
  "sorted_wrt (before f) ys \<Longrightarrow> \<forall>y \<in> set ys. x < y \<Longrightarrow> sorted_wrt (before f) (insort_key f x ys)"
proof (induction ys)
  case Nil
  show ?case by simp
next
  case (Cons y ys)
  show ?case
  proof (cases "f x \<le> f y")
    case True
    have "before f x z" if "z \<in> set (y # ys)" for z
    proof -
      have "f y \<le> f z" using that Cons.prems(1) by (auto simp: before_def)
      moreover have "x < z" using that Cons.prems(2) by auto
      ultimately show ?thesis using True by (auto simp: before_def)
    qed
    then show ?thesis using True Cons.prems(1) by simp
  next
    case False
    have i: "sorted_wrt (before f) (insort_key f x ys)"
      using Cons by simp
    have "before f y z" if "z \<in> set (insort_key f x ys)" for z
      using that False Cons.prems(1) by (auto simp: set_insort_key before_def)
    then show ?thesis using False i by simp
  qed
qed

lemma sort_key_before:
  "sorted_wrt (<) xs \<Longrightarrow> sorted_wrt (before f) (sort_key f xs)"
proof (induction xs)
  case Nil
  show ?case by simp
next
  case (Cons x xs)
  have "sorted_wrt (before f) (sort_key f xs)" using Cons by simp
  moreover have "\<forall>y \<in> set (sort_key f xs). x < y" using Cons.prems by simp
  ultimately show ?case by (simp add: insort_before)
qed

lemma argsort_mset: "mset (argsort pos a) = mset [0..<length a]"
  by (simp add: argsort_def)

lemma argsort_set: "set (argsort pos a) = {0..<length a}"
  using argsort_mset [of pos a] by (metis mset_eq_setD set_upt)

lemma argsort_distinct: "distinct (argsort pos a)"
  using argsort_mset [of pos a] by (metis distinct_upt mset_eq_imp_distinct_iff)

lemma argsort_length: "length (argsort pos a) = length a"
  using argsort_mset [of pos a] by (metis mset_eq_length length_upt diff_zero)

lemma argsort_sorted:
  "list_all int64 a \<Longrightarrow> sorted (map (\<lambda>i. a ! i) (argsort pos a))"
  by (simp add: argsort_def)

lemma argsort_short:
  "list_all int64 a \<Longrightarrow> length a \<le> 16 \<Longrightarrow>
   argsort pos a = sort_key (\<lambda>i. a ! i) [0..<length a]"
  by (simp add: argsort_def)

lemma argsort_before:
  "list_all int64 a \<Longrightarrow> length a \<le> 16 \<Longrightarrow>
   sorted_wrt (before (\<lambda>i. a ! i)) (argsort pos a)"
  unfolding argsort_short by (rule sort_key_before) (simp add: sorted_wrt_upt)

text \<open>
  When the counts are listed in strictly ascending order, the argsort is the list of the
  indices in order, whatever numpy does with equal values.
\<close>

lemma argsort_ascending:
  assumes "list_all int64 a" "sorted_wrt (<) a"
  shows "argsort pos a = [0..<length a]"
proof -
  let ?l = "argsort pos a"
  have len: "length ?l = length a" by (rule argsort_length)
  have "?l ! x \<le> ?l ! y" if "x \<le> y" "y < length ?l" for x y
  proof (rule ccontr)
    assume "\<not> ?l ! x \<le> ?l ! y"
    then have lt: "?l ! y < ?l ! x" by simp
    have "?l ! x \<in> set ?l" using that by simp
    then have "?l ! x < length a" by (simp add: argsort_set)
    with lt assms(2) have "a ! (?l ! y) < a ! (?l ! x)"
      by (simp add: sorted_wrt_nth_less)
    moreover have "map (\<lambda>i. a ! i) ?l ! x \<le> map (\<lambda>i. a ! i) ?l ! y"
      using argsort_sorted [OF assms(1), of pos] that
      by (intro sorted_nth_mono) simp_all
    ultimately show False using that by simp
  qed
  then have "sorted ?l" by (simp add: sorted_iff_nth_mono)
  moreover have "set ?l = set [0..<length a]" by (simp add: argsort_set)
  ultimately show ?thesis
    using argsort_distinct [of pos a]
    by (intro sorted_distinct_set_unique) simp_all
qed

text \<open>The order of ranks: the position of an index in the reversed argsort.\<close>

lemma rev_argsort_descending:
  assumes "list_all int64 a" "y < length a" "x < y"
  shows "a ! (rev (argsort pos a) ! y) \<le> a ! (rev (argsort pos a) ! x)"
proof -
  have "sorted_wrt (\<lambda>i j. a ! i \<le> a ! j) (argsort pos a)"
    using argsort_sorted [OF assms(1), of pos] by (simp add: sorted_wrt_map)
  then have "sorted_wrt (\<lambda>i j. a ! j \<le> a ! i) (rev (argsort pos a))"
    by (simp add: sorted_wrt_rev)
  from sorted_wrt_nth_less [OF this assms(3)] show ?thesis
    using assms(2) by (simp add: argsort_length)
qed

lemma rev_argsort_nth:
  assumes "list_all int64 a" "length a \<le> 16" "y < length a" "x < y"
  shows "before (\<lambda>i. a ! i) (rev (argsort pos a) ! y) (rev (argsort pos a) ! x)"
proof -
  have "sorted_wrt (\<lambda>i j. before (\<lambda>i. a ! i) j i) (rev (argsort pos a))"
    using argsort_before [OF assms(1,2), of pos] by (simp add: sorted_wrt_rev)
  from sorted_wrt_nth_less [OF this assms(4)] show ?thesis
    using assms(3) by (simp add: argsort_length)
qed

lemma keys_inj:
  assumes "distinct (keys d)"
  shows "inj_on (\<lambda>r. keys d ! r) {0..<length d}"
proof (rule inj_onI)
  fix x y
  assume "x \<in> {0..<length d}" "y \<in> {0..<length d}" "keys d ! x = keys d ! y"
  then show "x = y"
    using assms nth_eq_iff_index_eq [of "keys d" x y] by (simp add: keys_def)
qed

lemma rank_map_eq:
  assumes "distinct (keys count_map)"
  shows "build_rank_map_from_count_map pos count_map =
     ranked (keys count_map) (argsort pos (values_of count_map))"
proof -
  let ?l = "rev (argsort pos (values_of count_map))"
  have n: "length ?l = length count_map"
    by (simp add: argsort_length values_of_def)
  have "inj_on (\<lambda>r. keys count_map ! r) (set ?l)"
    using keys_inj [OF assms] by (simp add: argsort_set values_of_def)
  then have "distinct (map (\<lambda>r. keys count_map ! r) ?l)"
    by (simp add: distinct_map argsort_distinct)
  then have "distinct (keys (zip (map (\<lambda>r. keys count_map ! r) ?l) (map int [0..<length count_map])))"
    using n by (simp add: keys_def)
  then show ?thesis
    using n by (simp add: build_rank_map_from_count_map_def ranked_def Let_def dict_of_distinct)
qed

lemma rank_map_lookup:
  assumes "distinct (keys count_map)" "x < length count_map"
  shows "map_of (build_rank_map_from_count_map pos count_map)
           (keys count_map ! (rev (argsort pos (values_of count_map)) ! x)) = Some (int x)"
proof -
  let ?l = "rev (argsort pos (values_of count_map))"
  let ?ks = "map (\<lambda>r. keys count_map ! r) ?l"
  have n: "length ?l = length count_map"
    by (simp add: argsort_length values_of_def)
  have "inj_on (\<lambda>r. keys count_map ! r) (set ?l)"
    using keys_inj [OF assms(1)] by (simp add: argsort_set values_of_def)
  then have d: "distinct ?ks"
    by (simp add: distinct_map argsort_distinct)
  have "map_of (zip ?ks (map int [0..<length count_map])) (?ks ! x) = Some (map int [0..<length count_map] ! x)"
    using d n assms(2) by (intro map_of_zip_nth) simp_all
  then show ?thesis
    using assms n by (simp add: rank_map_eq ranked_def)
qed

lemma rank_map_length:
  "distinct (keys cm) \<Longrightarrow> length (build_rank_map_from_count_map pos cm) = length cm"
  by (simp add: rank_map_eq ranked_def argsort_length values_of_def)

lemma rank_map_values:
  "distinct (keys cm) \<Longrightarrow>
   values_of (build_rank_map_from_count_map pos cm) = map int [0..<length cm]"
  by (simp add: rank_map_eq ranked_def argsort_length values_of_def)

text \<open>
  Claim C6, as the code has it. For every count map whose counts are \<^verbatim>\<open>int64\<close>
  values, the rank map gives the programs the ranks \<open>0, \<dots>, n - 1\<close>, one each, in
  descending order of count: a program with a greater count has a smaller rank, so a
  program of rank 0 has a highest count. In a count map of at most 16 programs, of two
  programs with the same count the one listed later has the smaller rank: the ascending
  argsort keeps equal counts in listed order and the reversal turns that order around.
  In a larger count map the ranks of programs with the same count follow numpy's
  unstable sort, not the listing. The rank map is a function of the count map, so a
  second run gives the same ranking.
\<close>

theorem rank_map_order:
  assumes "distinct (keys count_map)"
    and "list_all int64 (values_of count_map)"
  shows "mset (keys (build_rank_map_from_count_map pos count_map)) = mset (keys count_map)
     \<and> values_of (build_rank_map_from_count_map pos count_map) = map int [0..<length count_map]
     \<and> (\<forall>i < length count_map. \<forall>j < length count_map.
          \<exists>ri rj. map_of (build_rank_map_from_count_map pos count_map) (fst (count_map ! i)) = Some ri
            \<and> map_of (build_rank_map_from_count_map pos count_map) (fst (count_map ! j)) = Some rj
            \<and> 0 \<le> ri \<and> 0 \<le> rj
            \<and> (snd (count_map ! j) < snd (count_map ! i) \<longrightarrow> ri < rj)
            \<and> (length count_map \<le> 16 \<longrightarrow>
                 (ri < rj \<longleftrightarrow> snd (count_map ! j) < snd (count_map ! i)
                    \<or> (snd (count_map ! i) = snd (count_map ! j) \<and> j < i))))
     \<and> (\<forall>i < length count_map.
          map_of (build_rank_map_from_count_map pos count_map) (fst (count_map ! i)) = Some 0 \<longrightarrow>
          (\<forall>j < length count_map. snd (count_map ! j) \<le> snd (count_map ! i)))"
proof -
  let ?R = "build_rank_map_from_count_map pos count_map"
  let ?c = "values_of count_map"
  let ?l = "rev (argsort pos ?c)"
  let ?n = "length count_map"
  have n: "length ?l = ?n" by (simp add: argsort_length values_of_def)
  have lc: "length ?c = ?n" by (simp add: values_of_def)
  have k: "keys ?R = map (\<lambda>r. keys count_map ! r) ?l"
    using n by (simp add: rank_map_eq [OF assms(1)] ranked_def keys_def)
  have "mset ?l = mset [0..<?n]" using argsort_mset [of pos ?c] lc by simp
  then have "mset (map (\<lambda>r. keys count_map ! r) ?l) = mset (map (\<lambda>r. keys count_map ! r) [0..<?n])"
    by (metis mset_map)
  also have "map (\<lambda>r. keys count_map ! r) [0..<?n] = keys count_map"
    using map_nth [of "keys count_map"] by (simp add: keys_def)
  finally have 1: "mset (keys ?R) = mset (keys count_map)" using k by simp
  have 2: "values_of ?R = map int [0..<?n]"
    using assms(1) by (rule rank_map_values)
  have place: "\<exists>x < ?n. ?l ! x = i" if "i < ?n" for i
  proof -
    have "i \<in> set ?l" using that lc by (simp add: argsort_set)
    then show ?thesis using n by (metis in_set_conv_nth)
  qed
  have 3: "\<exists>ri rj. map_of ?R (fst (count_map ! i)) = Some ri
            \<and> map_of ?R (fst (count_map ! j)) = Some rj
            \<and> 0 \<le> ri \<and> 0 \<le> rj
            \<and> (snd (count_map ! j) < snd (count_map ! i) \<longrightarrow> ri < rj)
            \<and> (?n \<le> 16 \<longrightarrow>
                 (ri < rj \<longleftrightarrow> snd (count_map ! j) < snd (count_map ! i)
                    \<or> (snd (count_map ! i) = snd (count_map ! j) \<and> j < i)))"
    if i: "i < ?n" and j: "j < ?n" for i j
  proof -
    from place [OF i] obtain x where x: "x < ?n" "?l ! x = i" by blast
    from place [OF j] obtain y where y: "y < ?n" "?l ! y = j" by blast
    have ri: "map_of ?R (fst (count_map ! i)) = Some (int x)"
      using rank_map_lookup [OF assms(1) x(1), of pos] x(2) i by (simp add: keys_def)
    have rj: "map_of ?R (fst (count_map ! j)) = Some (int y)"
      using rank_map_lookup [OF assms(1) y(1), of pos] y(2) j by (simp add: keys_def)
    have ci: "?c ! i = snd (count_map ! i)" using i by (simp add: values_of_def)
    have cj: "?c ! j = snd (count_map ! j)" using j by (simp add: values_of_def)
    have desc: "x < y" if g: "snd (count_map ! j) < snd (count_map ! i)"
    proof (rule ccontr)
      assume "\<not> x < y"
      then consider "x = y" | "y < x" by linarith
      then show False
      proof cases
        case 1
        then have "i = j" using x y by simp
        then show False using g by simp
      next
        case 2
        from rev_argsort_descending [OF assms(2), of x y pos] 2 x y lc
        have "?c ! i \<le> ?c ! j" by simp
        then show False using g ci cj by simp
      qed
    qed
    have ties: "x < y \<longleftrightarrow> snd (count_map ! j) < snd (count_map ! i)
                  \<or> (snd (count_map ! i) = snd (count_map ! j) \<and> j < i)"
      if short: "?n \<le> 16"
    proof
      assume "x < y"
      from rev_argsort_nth [OF assms(2), of y x pos] this short x y lc
      have "before (\<lambda>i. ?c ! i) j i" by simp
      then show "snd (count_map ! j) < snd (count_map ! i)
                  \<or> (snd (count_map ! i) = snd (count_map ! j) \<and> j < i)"
        using ci cj by (auto simp: before_def)
    next
      assume r: "snd (count_map ! j) < snd (count_map ! i)
                  \<or> (snd (count_map ! i) = snd (count_map ! j) \<and> j < i)"
      show "x < y"
      proof (rule ccontr)
        assume "\<not> x < y"
        then consider "x = y" | "y < x" by linarith
        then show False
        proof cases
          case 1
          then have "i = j" using x y by simp
          then show False using r by simp
        next
          case 2
          from rev_argsort_nth [OF assms(2), of x y pos] 2 short x y lc
          have "before (\<lambda>i. ?c ! i) i j" by simp
          then show False using r ci cj by (auto simp: before_def)
        qed
      qed
    qed
    show ?thesis using ri rj desc ties by simp
  qed
  have 4: "snd (count_map ! j) \<le> snd (count_map ! i)"
    if i: "i < ?n" and z: "map_of ?R (fst (count_map ! i)) = Some 0" and j: "j < ?n" for i j
  proof -
    from 3 [OF j i] obtain rj ri where
      "map_of ?R (fst (count_map ! j)) = Some rj" "map_of ?R (fst (count_map ! i)) = Some ri"
      "0 \<le> rj" and d: "snd (count_map ! i) < snd (count_map ! j) \<longrightarrow> rj < ri"
      by blast
    then have "\<not> rj < ri" using z by simp
    then show ?thesis using d by linarith
  qed
  show ?thesis
  proof (intro conjI allI impI)
    show "mset (keys ?R) = mset (keys count_map)" by (rule 1)
    show "values_of ?R = map int [0..<?n]" by (rule 2)
  next
    fix i j assume "i < ?n" "j < ?n"
    then show "\<exists>ri rj. map_of ?R (fst (count_map ! i)) = Some ri
            \<and> map_of ?R (fst (count_map ! j)) = Some rj
            \<and> 0 \<le> ri \<and> 0 \<le> rj
            \<and> (snd (count_map ! j) < snd (count_map ! i) \<longrightarrow> ri < rj)
            \<and> (?n \<le> 16 \<longrightarrow>
                 (ri < rj \<longleftrightarrow> snd (count_map ! j) < snd (count_map ! i)
                    \<or> (snd (count_map ! i) = snd (count_map ! j) \<and> j < i)))"
      by (rule 3)
  next
    fix i j assume "i < ?n" "map_of ?R (fst (count_map ! i)) = Some 0" "j < ?n"
    then show "snd (count_map ! j) \<le> snd (count_map ! i)" by (rule 4)
  qed
qed

theorem rank_map_order_witness:
  "distinct (keys [(''A'', 5 :: int), (''B'', 5)])
   \<and> list_all int64 (values_of [(''A'', 5 :: int), (''B'', 5)])
   \<and> (\<exists>ra rb. map_of (build_rank_map_from_count_map listed [(''A'', 5), (''B'', 5)]) ''A'' = Some ra
        \<and> map_of (build_rank_map_from_count_map listed [(''A'', 5), (''B'', 5)]) ''B'' = Some rb
        \<and> rb < ra)"
proof -
  have h: "distinct (keys [(''A'', 5 :: int), (''B'', 5)])" by code_simp
  have g: "list_all int64 (values_of [(''A'', 5 :: int), (''B'', 5)])" by code_simp
  have s: "length [(''A'', 5 :: int), (''B'', 5)] \<le> 16" by simp
  from rank_map_order [OF h g, of listed]
  have "\<forall>i < length [(''A'', 5 :: int), (''B'', 5)]. \<forall>j < length [(''A'', 5 :: int), (''B'', 5)].
          \<exists>ri rj. map_of (build_rank_map_from_count_map listed [(''A'', 5), (''B'', 5)])
                     (fst ([(''A'', 5 :: int), (''B'', 5)] ! i)) = Some ri
            \<and> map_of (build_rank_map_from_count_map listed [(''A'', 5), (''B'', 5)])
                     (fst ([(''A'', 5 :: int), (''B'', 5)] ! j)) = Some rj
            \<and> 0 \<le> ri \<and> 0 \<le> rj
            \<and> (snd ([(''A'', 5 :: int), (''B'', 5)] ! j) < snd ([(''A'', 5 :: int), (''B'', 5)] ! i) \<longrightarrow> ri < rj)
            \<and> (length [(''A'', 5 :: int), (''B'', 5)] \<le> 16 \<longrightarrow>
                (ri < rj \<longleftrightarrow> snd ([(''A'', 5 :: int), (''B'', 5)] ! j) < snd ([(''A'', 5 :: int), (''B'', 5)] ! i)
                  \<or> (snd ([(''A'', 5 :: int), (''B'', 5)] ! i) = snd ([(''A'', 5 :: int), (''B'', 5)] ! j) \<and> j < i)))"
    by blast
  from this [rule_format, of 1 0] have
    "\<exists>ri rj. map_of (build_rank_map_from_count_map listed [(''A'', 5), (''B'', 5)]) ''B'' = Some ri
            \<and> map_of (build_rank_map_from_count_map listed [(''A'', 5), (''B'', 5)]) ''A'' = Some rj
            \<and> ri < rj"
    by auto
  then show ?thesis using h g by blast
qed

text \<open>
  The programs \<^verbatim>\<open>A\<close> and \<^verbatim>\<open>B\<close> have the same count and are listed in this order;
  \<^verbatim>\<open>B\<close> gets rank 0 and \<^verbatim>\<open>A\<close> rank 1.
\<close>

theorem rank_map_ties_counterexample:
  "map_of (build_rank_map_from_count_map listed [(''A'', 5), (''B'', 5)]) ''A'' = Some 1
   \<and> map_of (build_rank_map_from_count_map listed [(''A'', 5), (''B'', 5)]) ''B'' = Some 0"
  by code_simp

section \<open>Rarity classes: \<^verbatim>\<open>build_zipf_map\<close>\<close>

lemma mask_assign_eq:
  "length flags = length xs \<Longrightarrow>
   mask_assign xs flags v = Inr (map (\<lambda>(x, b). if b then v else x) (zip xs flags))"
  by (simp add: mask_assign_def)

lemma build_zipf_map_eq:
  assumes "distinct (keys cm)" "length rm = length cm"
  shows "build_zipf_map cm rm =
     Inr (zip (keys cm) (map (\<lambda>(c, r). zipf_at c r) (zip (values_of cm) (values_of rm))))"
proof -
  let ?n = "length cm"
  let ?t = "map (\<lambda>(x, b). if b then tail else x)
              (zip (replicate ?n body) (map (\<lambda>c. c < 3) (values_of cm)))"
  let ?h = "map (\<lambda>(x, b). if b then head else x) (zip ?t (map (\<lambda>r. r \<le> 20) (values_of rm)))"
  let ?z = "map (\<lambda>(c, r). zipf_at c r) (zip (values_of cm) (values_of rm))"
  have 1: "mask_assign (replicate ?n body) (map (\<lambda>c. c < 3) (values_of cm)) tail = Inr ?t"
    by (rule mask_assign_eq) (simp add: values_of_def)
  have 2: "mask_assign ?t (map (\<lambda>r. r \<le> 20) (values_of rm)) head = Inr ?h"
    by (rule mask_assign_eq) (simp add: values_of_def assms(2))
  have 3: "?h = ?z"
    by (rule nth_equalityI) (simp_all add: values_of_def assms(2) zipf_at_def)
  have "distinct (keys (zip (keys cm) ?z))"
    using assms by (simp add: keys_def values_of_def)
  then have 4: "dict_of (zip (keys cm) ?z) = zip (keys cm) ?z"
    by (rule dict_of_distinct)
  show ?thesis
    unfolding build_zipf_map_def Let_def
    using 1 2 3 4 by (simp add: then_do_def keys_def)
qed

text \<open>
  When the rank map iterates over the programs in the order of the count map, every
  program gets the class of its own count and its own rank.
\<close>

lemma build_zipf_map_aligned:
  assumes "distinct (keys cm)" "keys rm = keys cm" "(p, c) \<in> set cm"
  shows "\<exists>z r. build_zipf_map cm rm = Inr z \<and> map_of rm p = Some r
     \<and> map_of z p = Some (zipf_at c r)"
proof -
  have l: "length rm = length cm"
    using assms(2) by (metis keys_def length_map)
  from assms(3) obtain i where i: "i < length cm" "cm ! i = (p, c)"
    by (metis in_set_conv_nth)
  have k: "keys cm ! i = p" using i by (simp add: keys_def)
  have d: "distinct (keys rm)" using assms(1,2) by simp
  have "map_of (zip (keys rm) (values_of rm)) (keys rm ! i) = Some (values_of rm ! i)"
    using d i l by (intro map_of_zip_nth) (simp_all add: keys_def values_of_def)
  then have r: "map_of rm p = Some (values_of rm ! i)"
    using k assms(2) by (simp add: keys_def values_of_def zip_map_fst_snd)
  let ?z = "map (\<lambda>(c, r). zipf_at c r) (zip (values_of cm) (values_of rm))"
  have "map_of (zip (keys cm) ?z) (keys cm ! i) = Some (?z ! i)"
    using assms(1) i l by (intro map_of_zip_nth) (simp_all add: keys_def values_of_def)
  moreover have "?z ! i = zipf_at c (values_of rm ! i)"
    using i l by (simp add: values_of_def)
  ultimately have "map_of (zip (keys cm) ?z) p = Some (zipf_at c (values_of rm ! i))"
    using k by simp
  then show ?thesis
    using r build_zipf_map_eq [OF assms(1) l] by simp
qed

lemma build_zipf_map_all_head:
  assumes "distinct (keys cm)" "length rm = length cm" "\<forall>r \<in> set (values_of rm). r \<le> 20"
    and "p \<in> set (keys cm)"
  shows "\<exists>z. build_zipf_map cm rm = Inr z \<and> map_of z p = Some head"
proof -
  let ?z = "map (\<lambda>(c, r). zipf_at c r) (zip (values_of cm) (values_of rm))"
  from assms(4) obtain i where i: "i < length cm" "keys cm ! i = p"
    by (metis in_set_conv_nth keys_def length_map)
  have "map_of (zip (keys cm) ?z) (keys cm ! i) = Some (?z ! i)"
    using assms(1) i assms(2) by (intro map_of_zip_nth) (simp_all add: keys_def values_of_def)
  moreover have "values_of rm ! i \<le> 20"
    using assms(3) i assms(2) by (simp add: values_of_def)
  then have "?z ! i = head"
    using i assms(2) by (simp add: values_of_def zipf_at_def)
  ultimately show ?thesis
    using i build_zipf_map_eq [OF assms(1,2)] by simp
qed

text \<open>
  Claim C4: every program of rank at most 20 is in the head, and of the others every
  program with a count below 3 is in the tail and the rest in the body. The code pairs
  the values of the rank map with the keys of the count map by position. For the 22
  programs of \<open>programs22\<close> the rank map is built in rank order, the reverse of the
  listing: \<^verbatim>\<open>p00\<close>, with count 1 and rank 21, is put in the head where the claim has
  the tail, and \<^verbatim>\<open>p21\<close>, with rank 0, is put in the body where the claim has the
  head.
\<close>

theorem zipf_misaligned:
  "map_of programs22 ''p00'' = Some 1
   \<and> map_of (build_rank_map_from_count_map pos programs22) ''p00'' = Some 21
   \<and> map_of programs22 ''p21'' = Some 31
   \<and> map_of (build_rank_map_from_count_map pos programs22) ''p21'' = Some 0
   \<and> build_zipf_map programs22 (build_rank_map_from_count_map pos programs22) =
       Inr [(''p00'', head), (''p01'', head), (''p02'', head), (''p03'', head),
            (''p04'', head), (''p05'', head), (''p06'', head), (''p07'', head),
            (''p08'', head), (''p09'', head), (''p10'', head), (''p11'', head),
            (''p12'', head), (''p13'', head), (''p14'', head), (''p15'', head),
            (''p16'', head), (''p17'', head), (''p18'', head), (''p19'', head),
            (''p20'', head), (''p21'', body)]"
proof -
  have i: "list_all int64 (values_of programs22)" by code_simp
  have u: "sorted_wrt (<) (values_of programs22)" by code_simp
  have d: "distinct (keys programs22)" by code_simp
  have n: "length (values_of programs22) = 22" by code_simp
  have "argsort pos (values_of programs22) = [0..<22]"
    using argsort_ascending [OF i u, of pos] n by simp
  then have "build_rank_map_from_count_map pos programs22 = ranked (keys programs22) [0..<22]"
    by (simp add: rank_map_eq [OF d])
  also have "\<dots> =
       [(''p21'', 0), (''p20'', 1), (''p19'', 2), (''p18'', 3), (''p17'', 4), (''p16'', 5),
        (''p15'', 6), (''p14'', 7), (''p13'', 8), (''p12'', 9), (''p11'', 10), (''p10'', 11),
        (''p09'', 12), (''p08'', 13), (''p07'', 14), (''p06'', 15), (''p05'', 16), (''p04'', 17),
        (''p03'', 18), (''p02'', 19), (''p01'', 20), (''p00'', 21)]"
    by code_simp
  finally have r: "build_rank_map_from_count_map pos programs22 =
       [(''p21'', 0), (''p20'', 1), (''p19'', 2), (''p18'', 3), (''p17'', 4), (''p16'', 5),
        (''p15'', 6), (''p14'', 7), (''p13'', 8), (''p12'', 9), (''p11'', 10), (''p10'', 11),
        (''p09'', 12), (''p08'', 13), (''p07'', 14), (''p06'', 15), (''p05'', 16), (''p04'', 17),
        (''p03'', 18), (''p02'', 19), (''p01'', 20), (''p00'', 21)]" .
  show ?thesis unfolding r by code_simp
qed

text \<open>
  Claim C5, as the code has it. When the count map is \<^verbatim>\<open>{A:1, B:2, C:3, D:100}\<close>, in
  whatever order it and its rank map iterate, all four programs are in the head: the
  four ranks are at most 20, and the head rule is applied last.
\<close>

theorem zipf_four_programs:
  assumes "mset count_map = mset programs4"
    and "mset rank_map = mset (build_rank_map_from_count_map pos count_map)"
  shows "\<exists>z. build_zipf_map count_map rank_map = Inr z
     \<and> map_of z ''A'' = Some head \<and> map_of z ''B'' = Some head
     \<and> map_of z ''C'' = Some head \<and> map_of z ''D'' = Some head"
proof -
  have "mset (keys count_map) = mset (keys programs4)"
    using assms(1) unfolding keys_def by (metis mset_map)
  then have d': "distinct (keys count_map) = distinct (keys programs4)"
    and s: "set (keys count_map) = set (keys programs4)"
    by (rule mset_eq_imp_distinct_iff, rule mset_eq_setD)
  have d: "distinct (keys count_map)"
    unfolding d' by (simp add: programs4_def keys_def)
  have n: "length count_map = 4"
    using assms(1) mset_eq_length [of count_map programs4] by (simp add: programs4_def)
  have l: "length rank_map = length count_map"
    using assms(2) mset_eq_length [of rank_map] by (simp add: rank_map_length [OF d])
  have "mset (values_of rank_map) = mset (values_of (build_rank_map_from_count_map pos count_map))"
    using assms(2) unfolding values_of_def by (metis mset_map)
  then have "set (values_of rank_map) = set (values_of (build_rank_map_from_count_map pos count_map))"
    by (rule mset_eq_setD)
  also have "values_of (build_rank_map_from_count_map pos count_map) = map int [0..<length count_map]"
    using d by (rule rank_map_values)
  finally have v: "\<forall>r \<in> set (values_of rank_map). r \<le> 20"
    using n by auto
  obtain z where z: "build_zipf_map count_map rank_map = Inr z"
    using build_zipf_map_eq [OF d l] by simp
  have "map_of z p = Some head" if "p \<in> set (keys count_map)" for p
    using build_zipf_map_all_head [OF d l v that] z by simp
  then show ?thesis using z s by (simp add: programs4_def keys_def)
qed

theorem zipf_four_programs_witness:
  "mset [(''D'', 100), (''A'', 1), (''C'', 3), (''B'', 2)] = mset programs4
   \<and> mset (rev (build_rank_map_from_count_map listed [(''D'', 100), (''A'', 1), (''C'', 3), (''B'', 2)]))
       = mset (build_rank_map_from_count_map listed [(''D'', 100), (''A'', 1), (''C'', 3), (''B'', 2)])
   \<and> (\<exists>z. build_zipf_map [(''D'', 100), (''A'', 1), (''C'', 3), (''B'', 2)]
              (rev (build_rank_map_from_count_map listed [(''D'', 100), (''A'', 1), (''C'', 3), (''B'', 2)]))
            = Inr z
     \<and> map_of z ''A'' = Some head \<and> map_of z ''B'' = Some head
     \<and> map_of z ''C'' = Some head \<and> map_of z ''D'' = Some head)"
proof -
  have h1: "mset [(''D'', 100), (''A'', 1), (''C'', 3), (''B'', 2)] = mset programs4"
    by (simp add: programs4_def)
  have h2: "mset (rev (build_rank_map_from_count_map listed [(''D'', 100), (''A'', 1), (''C'', 3), (''B'', 2)]))
       = mset (build_rank_map_from_count_map listed [(''D'', 100), (''A'', 1), (''C'', 3), (''B'', 2)])"
    by simp
  show ?thesis
    by (rule conjI [OF h1 conjI [OF h2 zipf_four_programs [OF h1 h2]]])
qed

text \<open>The programs \<^verbatim>\<open>A\<close> and \<^verbatim>\<open>B\<close> are in the head, not in the tail.\<close>

theorem zipf_four_programs_counterexample:
  "build_zipf_map programs4 (build_rank_map_from_count_map listed programs4) =
     Inr [(''A'', head), (''B'', head), (''C'', head), (''D'', head)]"
  by code_simp

section \<open>The vocabulary and the constructor\<close>

lemma build_count_map_distinct:
  "build_count_map flat st = Inr cm \<Longrightarrow> distinct (keys cm)"
  unfolding build_count_map_def
  by (auto split: option.splits dest: accumulate_distinct simp: keys_def)

lemma zipf_of_count_map:
  assumes "build_count_map flat st = Inr cm"
  shows "\<exists>zm. build_zipf_map cm (build_rank_map_from_count_map pos cm) = Inr zm"
proof -
  have d: "distinct (keys cm)" using assms by (rule build_count_map_distinct)
  show ?thesis using build_zipf_map_eq [OF d rank_map_length [OF d]] by simp
qed

text \<open>
  Claim C1: a dataset constructed with no vocabulary on the training split builds one,
  with the four reserved tokens first and then the tokens that occur more than
  \<^verbatim>\<open>min_occ\<close> times. In the code \<^verbatim>\<open>create_vocab\<close> loops over \<^verbatim>\<open>self.data\<close>
  instead of its argument: whenever the files of the split are there, the construction
  ends in an \<^verbatim>\<open>AttributeError\<close> and no vocabulary is returned.
\<close>

theorem init_without_vocab:
  assumes "split_pickle st ''train'' = Some raw"
    and "programs raw = Some ps"
    and "build_count_map flat st = Inr cm"
  shows "init T flat pos st pid ''train'' None m mo = Inl (AttributeError ''data'')"
proof -
  from zipf_of_count_map [OF assms(3), of pos] obtain zm where
    "build_zipf_map cm (build_rank_map_from_count_map pos cm) = Inr zm" by blast
  then show ?thesis
    using assms by (simp add: init_def then_do_def create_vocab_def Let_def)
qed

theorem init_without_vocab_witness:
  "split_pickle example_storage ''train''
     = Some \<lparr>programs = Some [''a b'', ''b c'', ''x''], labels_key = None\<rparr>
   \<and> programs \<lparr>programs = Some [''a b'', ''b c'', ''x''], labels_key = None :: unit list option\<rparr>
     = Some [''a b'', ''b c'', ''x'']
   \<and> build_count_map (\<lambda>x. x) example_storage = Inr [(''a b'', 6), (''b c'', 7)]
   \<and> init example_tokens (\<lambda>x. x) listed example_storage 1 ''train'' None 50 3
     = Inl (AttributeError ''data'')"
proof -
  have h1: "split_pickle example_storage ''train''
     = Some \<lparr>programs = Some [''a b'', ''b c'', ''x''], labels_key = None\<rparr>"
    by (simp add: example_storage_def)
  have h2: "programs \<lparr>programs = Some [''a b'', ''b c'', ''x''], labels_key = None :: unit list option\<rparr>
     = Some [''a b'', ''b c'', ''x'']"
    by simp
  have h3: "build_count_map (\<lambda>x. x) example_storage = Inr [(''a b'', 6), (''b c'', 7)]"
    by code_simp
  show ?thesis
    by (rule conjI [OF h1 conjI [OF h2 conjI [OF h3 init_without_vocab [OF h1 h2 h3]]]])
qed

text \<open>
  Claim C8. On a split other than \<^verbatim>\<open>train\<close>, \<^verbatim>\<open>create_vocab\<close> fails with the
  assertion error of its first statement; on the split \<^verbatim>\<open>train\<close> it never raises
  that error. (There the object that \<^verbatim>\<open>__init__\<close> passes has no attribute
  \<^verbatim>\<open>data\<close>, and the call raises an \<^verbatim>\<open>AttributeError\<close>.)
\<close>

theorem create_vocab_split_check:
  "(split self \<noteq> ''train'' \<longrightarrow>
      create_vocab T self d
        = Inl (AssertionError ''Vocabulary can only be created for training file.''))
   \<and> (split self = ''train'' \<longrightarrow>
      create_vocab T self d
        \<noteq> Inl (AssertionError ''Vocabulary can only be created for training file.''))
   \<and> (split self = ''train'' \<and> data self = None \<longrightarrow>
      create_vocab T self d = Inl (AttributeError ''data''))"
  by (simp add: create_vocab_def Let_def split: option.split)

theorem create_vocab_split_check_witness:
  "split (example_dataset\<lparr>split := ''val''\<rparr>) \<noteq> ''train''
   \<and> create_vocab example_tokens (example_dataset\<lparr>split := ''val''\<rparr>) [''a b'']
        = Inl (AssertionError ''Vocabulary can only be created for training file.'')
   \<and> split (example_dataset\<lparr>data := Some [''a b'']\<rparr>) = ''train''
   \<and> create_vocab example_tokens (example_dataset\<lparr>data := Some [''a b'']\<rparr>) [''a b'']
        \<noteq> Inl (AssertionError ''Vocabulary can only be created for training file.'')
   \<and> data example_dataset = None
   \<and> create_vocab example_tokens example_dataset [''a b''] = Inl (AttributeError ''data'')"
proof -
  have h1: "split (example_dataset\<lparr>split := ''val''\<rparr>) \<noteq> ''train''" by simp
  have h2: "split (example_dataset\<lparr>data := Some [''a b'']\<rparr>) = ''train''"
    by (simp add: example_dataset_def)
  have h3: "split example_dataset = ''train'' \<and> data example_dataset = None"
    by (simp add: example_dataset_def)
  note c1 = create_vocab_split_check [of "example_dataset\<lparr>split := ''val''\<rparr>" example_tokens "[''a b'']"]
  note c2 = create_vocab_split_check [of "example_dataset\<lparr>data := Some [''a b'']\<rparr>" example_tokens "[''a b'']"]
  note c3 = create_vocab_split_check [of example_dataset example_tokens "[''a b'']"]
  show ?thesis
    using h1 h2 h3 c1 [THEN conjunct1] c2 [THEN conjunct2, THEN conjunct1]
      c3 [THEN conjunct2, THEN conjunct2]
    by blast
qed

lemma process_programs_lengths:
  "process_programs T W m ps = Inr (seqs, lens) \<Longrightarrow>
   length seqs = length ps \<and> length lens = length ps"
proof (induction ps arbitrary: seqs lens)
  case Nil
  then show ?case by simp
next
  case (Cons p ps)
  from Cons.prems obtain t l seqs' lens' where
    "process_programs T W m ps = Inr (seqs', lens')" "seqs = t # seqs'" "lens = l # lens'"
    by (auto simp: then_do_def split: sum.splits prod.splits)
  then show ?case using Cons.IH by simp
qed

section \<open>Indexed access: \<^verbatim>\<open>__getitem__\<close>\<close>

lemma init_Inr:
  assumes "init T flat pos st pid sp v m mo = Inr self"
  shows "raw_labels self = None \<and> length (sequences self) = length (raw_programs self)
     \<and> length (lengths self) = length (raw_programs self)"
  using assms unfolding init_def then_do_def Let_def process_labels_def
  by (auto split: option.splits sum.splits prod.splits if_splits dest: process_programs_lengths)

lemma getitem_list_out:
  "i < - len xs \<or> len xs \<le> i \<Longrightarrow> getitem_list xs i = Inl IndexError"
  by (auto simp: getitem_list_def Let_def len_def)

lemma getitem_list_in:
  "- len xs \<le> i \<Longrightarrow> i < len xs \<Longrightarrow>
   getitem_list xs i = Inr (xs ! nat (if i < 0 then len xs + i else i))"
  by (auto simp: getitem_list_def Let_def len_def)

text \<open>
  Claim C9, as the code has it. For every constructed dataset of size \<open>n\<close>,
  \<^verbatim>\<open>__getitem__\<close> raises an \<^verbatim>\<open>IndexError\<close> for every index below \<open>-n\<close> or from
  \<open>n\<close> on. For an index from \<open>-n\<close> to \<open>n - 1\<close>, a negative one counting from the
  end, whose sequence holds \<^verbatim>\<open>int64\<close> indices only, it returns the sequence, the true
  length, no label and the rarity class of the program at that position when the raw
  program is a key of the rarity map, and raises a \<^verbatim>\<open>KeyError\<close> when it is not. When
  the sequence holds an index outside \<^verbatim>\<open>int64\<close>, the conversion to a tensor comes
  first: its error is the error of the call, and what it returns takes the place of the
  sequence.
\<close>

theorem getitem_bounds:
  assumes "init T flat pos st pid sp v m mo = Inr self"
  shows "(index < - size_of self \<or> size_of self \<le> index \<longrightarrow>
            getitem conv self index = Inl IndexError)
     \<and> (- size_of self \<le> index \<and> index < size_of self
          \<and> list_all int64
                (sequences self ! nat (if index < 0 then size_of self + index else index)) \<longrightarrow>
          (case map_of (zipf_map self)
                  (raw_programs self ! nat (if index < 0 then size_of self + index else index)) of
             None \<Rightarrow> getitem conv self index = Inl KeyError
           | Some z \<Rightarrow>
               getitem conv self index =
                 Inr (sequences self ! nat (if index < 0 then size_of self + index else index),
                      lengths self ! nat (if index < 0 then size_of self + index else index),
                      None, z)))
     \<and> (- size_of self \<le> index \<and> index < size_of self
          \<and> \<not> list_all int64
                (sequences self ! nat (if index < 0 then size_of self + index else index)) \<longrightarrow>
          (case conv (sequences self ! nat (if index < 0 then size_of self + index else index)) of
             Inl e \<Rightarrow> getitem conv self index = Inl e
           | Inr seq \<Rightarrow>
               (case map_of (zipf_map self)
                  (raw_programs self ! nat (if index < 0 then size_of self + index else index)) of
                  None \<Rightarrow> getitem conv self index = Inl KeyError
                | Some z \<Rightarrow>
                    getitem conv self index =
                      Inr (seq,
                           lengths self ! nat (if index < 0 then size_of self + index else index),
                           None, z))))"
proof -
  let ?k = "nat (if index < 0 then size_of self + index else index)"
  from init_Inr [OF assms] have l: "raw_labels self = None"
    and s: "len (raw_programs self) = size_of self" "len (lengths self) = size_of self"
    by (simp_all add: size_of_def len_def)
  have s0: "len (sequences self) = size_of self" by (simp add: size_of_def)
  have out: "getitem conv self index = Inl IndexError"
    if "index < - size_of self \<or> size_of self \<le> index"
    using that getitem_list_out [of index "sequences self"]
    by (simp add: getitem_def then_do_def s0)
  have unfold: "getitem conv self index =
      then_do (long_tensor conv (sequences self ! ?k)) (\<lambda>seq.
        case map_of (zipf_map self) (raw_programs self ! ?k) of
          None \<Rightarrow> Inl KeyError
        | Some z \<Rightarrow> Inr (seq, lengths self ! ?k, None, z))"
    if "- size_of self \<le> index" "index < size_of self"
    using that l
      getitem_list_in [of "sequences self" index]
      getitem_list_in [of "lengths self" index]
      getitem_list_in [of "raw_programs self" index]
    by (simp add: getitem_def then_do_def s s0 split: option.split sum.split)
  have narrow: "case map_of (zipf_map self) (raw_programs self ! ?k) of
             None \<Rightarrow> getitem conv self index = Inl KeyError
           | Some z \<Rightarrow>
               getitem conv self index = Inr (sequences self ! ?k, lengths self ! ?k, None, z)"
    if "- size_of self \<le> index" "index < size_of self" "list_all int64 (sequences self ! ?k)"
    using unfold [OF that(1,2)] that(3)
    by (simp add: long_tensor_def then_do_def split: option.split)
  have wide: "case conv (sequences self ! ?k) of
             Inl e \<Rightarrow> getitem conv self index = Inl e
           | Inr seq \<Rightarrow>
               (case map_of (zipf_map self) (raw_programs self ! ?k) of
                  None \<Rightarrow> getitem conv self index = Inl KeyError
                | Some z \<Rightarrow> getitem conv self index = Inr (seq, lengths self ! ?k, None, z))"
    if "- size_of self \<le> index" "index < size_of self" "\<not> list_all int64 (sequences self ! ?k)"
    using unfold [OF that(1,2)] that(3)
    by (simp add: long_tensor_def then_do_def split: option.split sum.split)
  show ?thesis using out narrow wide by blast
qed

theorem getitem_bounds_witness:
  "init example_tokens (\<lambda>x. x) listed example_storage 1 ''train'' (Some example_vocab) 3 3
     = Inr example_dataset
   \<and> getitem refuse example_dataset 3 = Inl IndexError
   \<and> getitem refuse example_dataset (- 4) = Inl IndexError
   \<and> getitem refuse example_dataset 1 = Inr ([2, 5, 1, 3, 0], 4, None, head)
   \<and> getitem refuse example_dataset 2 = Inl KeyError
   \<and> init example_tokens (\<lambda>x. x) listed example_storage 1 ''train'' (Some wide_vocab) 3 3
     = Inr wide_dataset
   \<and> getitem refuse wide_dataset 0 = Inl TypeError"
proof -
  have h: "init example_tokens (\<lambda>x. x) listed example_storage 1 ''train'' (Some example_vocab) 3 3
     = Inr example_dataset"
    by code_simp
  have n: "size_of example_dataset = 3" by code_simp
  have w: "init example_tokens (\<lambda>x. x) listed example_storage 1 ''train'' (Some wide_vocab) 3 3
     = Inr wide_dataset"
    by code_simp
  have nw: "size_of wide_dataset = 3" by code_simp
  have i1: "list_all int64 (sequences example_dataset ! 1)" by code_simp
  have i2: "list_all int64 (sequences example_dataset ! 2)" by code_simp
  have i0: "\<not> list_all int64 (sequences wide_dataset ! 0)" by code_simp
  have "getitem refuse example_dataset 3 = Inl IndexError"
    using getitem_bounds [OF h, of 3 refuse] n by simp
  moreover have "getitem refuse example_dataset (- 4) = Inl IndexError"
    using getitem_bounds [OF h, of "- 4" refuse] n by simp
  moreover have "getitem refuse example_dataset 1 = Inr ([2, 5, 1, 3, 0], 4, None, head)"
    using getitem_bounds [OF h, of 1 refuse] n i1 by (simp add: example_dataset_def)
  moreover have "getitem refuse example_dataset 2 = Inl KeyError"
    using getitem_bounds [OF h, of 2 refuse] n i2 by (simp add: example_dataset_def)
  moreover have "getitem refuse wide_dataset 0 = Inl TypeError"
    using getitem_bounds [OF w, of 0 refuse] nw i0 by (simp add: refuse_def)
  ultimately show ?thesis using h w by blast
qed

text \<open>
  In a dataset of three programs the index \<open>-2\<close> is outside \<open>[0, 3)\<close> and returns the
  record of the second program; the index 2 is inside and raises a \<^verbatim>\<open>KeyError\<close>,
  because the third program is not a key of the count map.
\<close>

theorem getitem_counterexample:
  "init example_tokens (\<lambda>x. x) listed example_storage 1 ''train'' (Some example_vocab) 3 3
     = Inr example_dataset
   \<and> size_of example_dataset = 3
   \<and> getitem refuse example_dataset (- 2) = Inr ([2, 5, 1, 3, 0], 4, None, head)
   \<and> getitem refuse example_dataset 2 = Inl KeyError"
  by code_simp

end
